theory Spec2Isabelle
  imports Main
begin

section \<open>The dependency queue of makepanda.py\<close>

text \<open>
  The model follows the last part of src/makepanda/makepanda.py: the construction of
  DEPENDENCYQUEUE, BuildWorker, AllSourcesReady, ParallelMake, SequentialMake,
  RunDependencyQueue and the final try/finally.

  A task is the Python list
  \<^verbatim>\<open>[CompileAnything, [name, inputs, opts], [name], deps, []]\<close>.
  The record names its positions: \<open>action\<close> is task[0] (the callable, by name),
  \<open>name\<close>, \<open>inputs\<close> and \<open>opts\<close> are task[1][0], task[1][1] and task[1][2],
  \<open>outputs\<close> is task[2], \<open>deps\<close> is task[3] and \<open>altdeps\<close> is task[4].
\<close>

record task =
  action :: string
  name :: string
  inputs :: "string list"
  opts :: "string list"
  outputs :: "string list"
  deps :: "string list"
  altdeps :: "string list"






text \<open>The dictionary \<open>pending\<close>: every key is stored with the placeholder 1.\<close>

type_synonym pending = "string \<rightharpoonup> nat"

text \<open>
  What the scheduler and the workers do to the world outside, in the order it happens.
  \<open>Ev_put\<close> carries the dictionary \<open>pending\<close> as it is when taskqueue.put(task) runs.
  \<open>Ev_action\<close> is a call of task[0] on the calling thread (SequentialMake), with the
  progress argument \<open>(i * 100.0) / len(tasklist)\<close> kept as the pair (i, len(tasklist)).
\<close>

datatype event =
    Ev_thread_start
  | Ev_NeedsBuild "string list" "string list"
  | Ev_put task pending
  | Ev_put_stop
  | Ev_JustBuilt "string list" "string list"
  | Ev_action task nat nat
  | Ev_SaveDependencyCache

text \<open>
  NeedsBuild and JustBuilt are defined in the module makepandacore, whose source is not
  among the files modelled here. NeedsBuild is a parameter: its answer may depend on
  everything that happened so far. JustBuilt is recorded in the trace with its two
  arguments. The action of a task is opaque as well: \<open>exec t\<close> says whether
  task[0](*task[1]) returns or raises.
\<close>

datatype outcome = Returns | Raises

type_synonym needs_build = "event list \<Rightarrow> string list \<Rightarrow> string list \<Rightarrow> bool"
type_synonym executor = "task \<Rightarrow> outcome"

subsection \<open>BuildWorker\<close>

text \<open>The task queue holds tasks and the stop signal 0; the done queue holds finished
  tasks and the failure marker 0.\<close>

datatype queue_item = Task task | Stop

datatype done_entry = Done task | Failure

text \<open>The inner try/except of BuildWorker: run the action, put the task on success,
  put 0 when anything was raised.\<close>

definition run_task :: "executor \<Rightarrow> task \<Rightarrow> done_entry" where
  "run_task exec t = (case exec t of Returns \<Rightarrow> Done t | Raises \<Rightarrow> Failure)"

datatype worker_status = Worker_returned | Worker_waiting

text \<open>
  The worker loop over the items this worker receives from the task queue. With no item
  left, taskqueue.get() blocks (\<open>Worker_waiting\<close>); the stop signal makes it return.
  The second argument is the done queue.
\<close>

fun BuildWorker :: "executor \<Rightarrow> queue_item list \<Rightarrow> done_entry list
    \<Rightarrow> done_entry list \<times> worker_status" where
  "BuildWorker exec [] donequeue = (donequeue, Worker_waiting)"
| "BuildWorker exec (Stop # taskqueue) donequeue = (donequeue, Worker_returned)"
| "BuildWorker exec (Task t # taskqueue) donequeue =
     BuildWorker exec taskqueue (donequeue @ [run_task exec t])"

subsection \<open>AllSourcesReady\<close>

text \<open>One of the three loops of AllSourcesReady: false at the first key of pending.\<close>

primrec none_pending :: "string list \<Rightarrow> pending \<Rightarrow> bool" where
  "none_pending [] pending = True"
| "none_pending (x # sources) pending =
     (case pending x of Some v \<Rightarrow> False | None \<Rightarrow> none_pending sources pending)"

definition AllSourcesReady :: "task \<Rightarrow> pending \<Rightarrow> bool" where
  "AllSourcesReady t pending =
     (if \<not> none_pending (deps t) pending then False
      else if \<not> none_pending (inputs t) pending then False
      else if \<not> none_pending (altdeps t) pending then False
      else True)"

subsection \<open>ParallelMake\<close>

text \<open>\<open>KeyError\<close> is what \<^verbatim>\<open>del pending[target]\<close> raises on a missing key.
  \<open>Action_raised\<close> is an exception leaving an action that is called outside any try
  (SequentialMake). The two other errors are the calls of exit.\<close>

text \<open>
  Modelled from the spec: exit is defined in the module makepandacore, whose source is
  not among the files modelled here. Following the spec (a fatal condition stops new
  dispatch and unwinds to the cleanup path before the process exits non-zero),
  \<open>exit(msg)\<close> is an exception that carries its message: \<open>Exit_aborting\<close>
  is exit("Build process aborting."), and \<open>Exit_dependency n outs\<close> is the exit
  after the loop, whose message is formatted from len(tasklist) and tasklist[0][2].
\<close>

datatype error =
    KeyError string
  | Exit_aborting
  | Exit_dependency nat "string list"
  | Action_raised


text \<open>
  The local variables of ParallelMake, and the trace. \<open>inflight\<close> stands for the two
  queues and the workers together: the tasks that were put on the task queue and whose
  entry has not been taken from the done queue yet.
\<close>

record state =
  tasklist :: "task list"
  pending :: pending
  tasksqueued :: int
  inflight :: "task list"
  trace :: "event list"

text \<open>\<^verbatim>\<open>for task in tasklist: for target in task[2]: pending[target] = 1\<close>\<close>

primrec seed_targets :: "string list \<Rightarrow> pending \<Rightarrow> pending" where
  "seed_targets [] p = p"
| "seed_targets (x # xs) p = seed_targets xs (p(x \<mapsto> 1))"

primrec seed_pending :: "task list \<Rightarrow> pending \<Rightarrow> pending" where
  "seed_pending [] p = p"
| "seed_pending (t # ts) p = seed_pending ts (seed_targets (outputs t) p)"

text \<open>\<^verbatim>\<open>for target in task[2]: del pending[target]\<close>\<close>

primrec del_targets :: "string list \<Rightarrow> pending \<Rightarrow> error + pending" where
  "del_targets [] p = Inr p"
| "del_targets (x # xs) p =
     (case p x of
        None \<Rightarrow> Inl (KeyError x)
      | Some v \<Rightarrow> del_targets xs (p(x := None)))"

text \<open>How a run, or a part of it, ends: normally, with an exception, or waiting in
  donequeue.get() for an entry that has not arrived.\<close>

datatype 'a result = Ok 'a | Raised error 'a | Waiting 'a

text \<open>
  The for loop over tasklist inside the while loop. The third argument is the rest of
  the list, the fourth is \<open>extras\<close>.
\<close>

fun scan :: "int \<Rightarrow> needs_build \<Rightarrow> task list \<Rightarrow> task list \<Rightarrow> state \<Rightarrow> error \<times> state + state" where
  "scan THREADCOUNT nb [] extras s = Inr (s\<lparr>tasklist := extras\<rparr>)"
| "scan THREADCOUNT nb (t # ts) extras s =
     (if tasksqueued s < THREADCOUNT \<and> AllSourcesReady t (pending s) then
        (if nb (trace s) (outputs t) (deps t) then
           scan THREADCOUNT nb ts extras
             (s\<lparr>tasksqueued := tasksqueued s + 1,
                inflight := inflight s @ [t],
                trace := trace s @ [Ev_NeedsBuild (outputs t) (deps t), Ev_put t (pending s)]\<rparr>)
         else
           (case del_targets (outputs t) (pending s) of
              Inl e \<Rightarrow> Inl (e, s\<lparr>trace := trace s @ [Ev_NeedsBuild (outputs t) (deps t)]\<rparr>)
            | Inr p \<Rightarrow>
                scan THREADCOUNT nb ts extras
                  (s\<lparr>pending := p,
                     trace := trace s @ [Ev_NeedsBuild (outputs t) (deps t)]\<rparr>)))
      else scan THREADCOUNT nb ts (extras @ [t]) s)"

text \<open>
  donequeue.get(). The workers finish in an order the scheduler does not choose: the
  head \<open>i\<close> of the list \<open>order\<close> names the in-flight task whose entry arrives next
  (position \<open>i mod length inflight\<close>), and the entry is what BuildWorker puts for it.
  With no arrival left in \<open>order\<close>, or nothing in flight, the call blocks.
\<close>

definition donequeue_get :: "executor \<Rightarrow> task list \<Rightarrow> nat list
    \<Rightarrow> (done_entry \<times> task list \<times> nat list) option" where
  "donequeue_get exec fl order =
     (case order of
        [] \<Rightarrow> None
      | i # order' \<Rightarrow>
          if fl = [] then None
          else let k = i mod length fl
               in Some (run_task exec (fl ! k), take k fl @ drop (Suc k) fl, order'))"

datatype step = Continue state "nat list" | Finished "state result"

text \<open>The first statement of the loop body: the guarded rescan of the task list.\<close>

definition scan_phase :: "int \<Rightarrow> needs_build \<Rightarrow> state \<Rightarrow> error \<times> state + state" where
  "scan_phase THREADCOUNT nb s =
     (if tasksqueued s < THREADCOUNT then scan THREADCOUNT nb (tasklist s) [] s else Inr s)"

text \<open>One pass through the body of \<^verbatim>\<open>while True\<close>.\<close>

definition loop_body :: "int \<Rightarrow> needs_build \<Rightarrow> executor \<Rightarrow> state \<Rightarrow> nat list \<Rightarrow> step" where
  "loop_body THREADCOUNT nb exec s order =
     (case scan_phase THREADCOUNT nb s of
        Inl (e, s1) \<Rightarrow> Finished (Raised e s1)
      | Inr s1 \<Rightarrow>
          if tasksqueued s1 = 0 then
            (if length (tasklist s1) > 0 then Continue s1 order
             else Finished (Ok s1))
          else
            (case donequeue_get exec (inflight s1) order of
               None \<Rightarrow> Finished (Waiting s1)
             | Some (Failure, fl, order') \<Rightarrow>
                 Finished (Raised Exit_aborting (s1\<lparr>inflight := fl\<rparr>))
             | Some (Done donetask, fl, order') \<Rightarrow>
                 (let s2 = s1\<lparr>tasksqueued := tasksqueued s1 - 1, inflight := fl,
                              trace := trace s1 @ [Ev_JustBuilt (outputs donetask) (deps donetask)]\<rparr>
                  in case del_targets (outputs donetask) (pending s2) of
                       Inl e \<Rightarrow> Finished (Raised e s2)
                     | Inr p \<Rightarrow> Continue (s2\<lparr>pending := p\<rparr>) order')))"

text \<open>The while loop. It may run forever: \<open>None\<close> is the run that never leaves it.\<close>

partial_function (option) ParallelMake_loop ::
    "int \<Rightarrow> needs_build \<Rightarrow> executor \<Rightarrow> state \<Rightarrow> nat list \<Rightarrow> state result option" where
  "ParallelMake_loop THREADCOUNT nb exec s order =
     (case loop_body THREADCOUNT nb exec s order of
        Continue s' order' \<Rightarrow> ParallelMake_loop THREADCOUNT nb exec s' order'
      | Finished r \<Rightarrow> Some r)"

declare ParallelMake_loop.simps [code]

text \<open>The state when the while loop is entered: pending is seeded, one BuildWorker
  thread is started per element of range(THREADCOUNT), tasksqueued is 0.\<close>

definition ParallelMake_init :: "int \<Rightarrow> task list \<Rightarrow> event list \<Rightarrow> state" where
  "ParallelMake_init THREADCOUNT tasks tr =
     \<lparr>tasklist = tasks, pending = seed_pending tasks Map.empty, tasksqueued = 0,
      inflight = [], trace = tr @ replicate (nat THREADCOUNT) Ev_thread_start\<rparr>"

text \<open>After the loop: one stop signal per worker, then the check for unsatisfied tasks.\<close>

definition ParallelMake_finish :: "int \<Rightarrow> state \<Rightarrow> state result" where
  "ParallelMake_finish THREADCOUNT s =
     (let s1 = s\<lparr>trace := trace s @ replicate (nat THREADCOUNT) Ev_put_stop\<rparr>
      in case tasklist s1 of
           [] \<Rightarrow> Ok s1
         | t # ts \<Rightarrow> Raised (Exit_dependency (length (tasklist s1)) (outputs t)) s1)"

definition ParallelMake :: "int \<Rightarrow> needs_build \<Rightarrow> executor \<Rightarrow> task list \<Rightarrow> nat list
    \<Rightarrow> event list \<Rightarrow> state result option" where
  "ParallelMake THREADCOUNT nb exec tasks order tr =
     (case ParallelMake_loop THREADCOUNT nb exec (ParallelMake_init THREADCOUNT tasks tr) order of
        None \<Rightarrow> None
      | Some (Ok s) \<Rightarrow> Some (ParallelMake_finish THREADCOUNT s)
      | Some r \<Rightarrow> Some r)"

text \<open>The state after at most \<open>n\<close> passes through the loop body: a prefix of a run.\<close>

fun run_iters :: "int \<Rightarrow> needs_build \<Rightarrow> executor \<Rightarrow> nat \<Rightarrow> state \<Rightarrow> nat list \<Rightarrow> step" where
  "run_iters THREADCOUNT nb exec 0 s order = Continue s order"
| "run_iters THREADCOUNT nb exec (Suc n) s order =
     (case loop_body THREADCOUNT nb exec s order of
        Continue s' order' \<Rightarrow> run_iters THREADCOUNT nb exec n s' order'
      | Finished r \<Rightarrow> Finished r)"

primrec result_state :: "'a result \<Rightarrow> 'a" where
  "result_state (Ok s) = s"
| "result_state (Raised e s) = s"
| "result_state (Waiting s) = s"

primrec step_state :: "step \<Rightarrow> state" where
  "step_state (Continue s order) = s"
| "step_state (Finished r) = result_state r"

subsection \<open>SequentialMake, RunDependencyQueue and the main program\<close>

text \<open>The for loop of SequentialMake: \<open>n\<close> is len(tasklist), \<open>i\<close> the counter.\<close>

fun SequentialMake_loop :: "needs_build \<Rightarrow> executor \<Rightarrow> nat \<Rightarrow> nat \<Rightarrow> task list
    \<Rightarrow> event list \<Rightarrow> event list result" where
  "SequentialMake_loop nb exec n i [] tr = Ok tr"
| "SequentialMake_loop nb exec n i (t # ts) tr =
     (if nb tr (outputs t) (deps t) then
        (case exec t of
           Raises \<Rightarrow>
             Raised Action_raised (tr @ [Ev_NeedsBuild (outputs t) (deps t), Ev_action t i n])
         | Returns \<Rightarrow>
             SequentialMake_loop nb exec n (i + 1) ts
               (tr @ [Ev_NeedsBuild (outputs t) (deps t), Ev_action t i n,
                      Ev_JustBuilt (outputs t) (deps t)]))
      else
        SequentialMake_loop nb exec n (i + 1) ts
          (tr @ [Ev_NeedsBuild (outputs t) (deps t)]))"

definition SequentialMake :: "needs_build \<Rightarrow> executor \<Rightarrow> task list \<Rightarrow> event list
    \<Rightarrow> event list result" where
  "SequentialMake nb exec tasks tr = SequentialMake_loop nb exec (length tasks) 0 tasks tr"

primrec map_result :: "('a \<Rightarrow> 'b) \<Rightarrow> 'a result \<Rightarrow> 'b result" where
  "map_result f (Ok s) = Ok (f s)"
| "map_result f (Raised e s) = Raised e (f s)"
| "map_result f (Waiting s) = Waiting (f s)"

definition RunDependencyQueue :: "int \<Rightarrow> needs_build \<Rightarrow> executor \<Rightarrow> task list \<Rightarrow> nat list
    \<Rightarrow> event list \<Rightarrow> event list result option" where
  "RunDependencyQueue THREADCOUNT nb exec tasks order tr =
     (if THREADCOUNT \<noteq> 0 then
        map_option (map_result trace) (ParallelMake THREADCOUNT nb exec tasks order tr)
      else Some (SequentialMake nb exec tasks tr))"

text \<open>
  Modelled from the spec: SaveDependencyCache is defined in the module makepandacore,
  whose source is not among the files modelled here. Following the spec (save()
  serializes the full in-memory cache), the call is one event of the trace, after
  everything recorded before it.
\<close>

definition SaveDependencyCache :: "event list \<Rightarrow> event list" where
  "SaveDependencyCache tr = tr @ [Ev_SaveDependencyCache]"

text \<open>
  \<^verbatim>\<open>try: RunDependencyQueue(DEPENDENCYQUEUE) finally: SaveDependencyCache()\<close>
  The finally clause runs when the try block returns and when it raises; it does not
  run while the block is still waiting or never ends.
\<close>

definition main :: "int \<Rightarrow> needs_build \<Rightarrow> executor \<Rightarrow> task list \<Rightarrow> nat list
    \<Rightarrow> event list result option" where
  "main THREADCOUNT nb exec tasks order =
     (case RunDependencyQueue THREADCOUNT nb exec tasks order [] of
        None \<Rightarrow> None
      | Some (Ok tr) \<Rightarrow> Some (Ok (SaveDependencyCache tr))
      | Some (Raised e tr) \<Rightarrow> Some (Raised e (SaveDependencyCache tr))
      | Some (Waiting tr) \<Rightarrow> Some (Waiting tr))"

section \<open>Notions used to state the properties\<close>

text \<open>The tasks a worker runs: the items it receives before the first stop signal.\<close>

primrec executed :: "queue_item list \<Rightarrow> task list" where
  "executed [] = []"
| "executed (x # q) = (case x of Stop \<Rightarrow> [] | Task t \<Rightarrow> t # executed q)"

text \<open>The counter stays between 0 and the width, and it bounds the tasks in flight.\<close>

definition within_width :: "int \<Rightarrow> state \<Rightarrow> bool" where
  "within_width T s =
     (0 \<le> tasksqueued s \<and> tasksqueued s \<le> T \<and> int (length (inflight s)) \<le> tasksqueued s)"

text \<open>The number of worker threads started.\<close>

primrec thread_starts :: "event list \<Rightarrow> nat" where
  "thread_starts [] = 0"
| "thread_starts (e # es) =
     (case e of Ev_thread_start \<Rightarrow> Suc (thread_starts es) | _ \<Rightarrow> thread_starts es)"

text \<open>A put on the task queue is in order when no explicit dep, no input and no alternate
  dep of the task is a key of pending at that moment.\<close>

definition dispatch_ok :: "event \<Rightarrow> bool" where
  "dispatch_ok e = (case e of
      Ev_put t p \<Rightarrow> (set (deps t) \<union> set (inputs t) \<union> set (altdeps t)) \<inter> dom p = {}
    | _ \<Rightarrow> True)"

definition sched_inv :: "int \<Rightarrow> state \<Rightarrow> bool" where
  "sched_inv T s = (within_width T s \<and> thread_starts (trace s) = nat T)"

text \<open>Two tasks that wait for each other.\<close>

definition cyc_a :: task where
  "cyc_a = \<lparr>action = ''CompileAnything'', name = ''a'', inputs = [], opts = [],
            outputs = [''a''], deps = [''b''], altdeps = []\<rparr>"

definition cyc_b :: task where
  "cyc_b = \<lparr>action = ''CompileAnything'', name = ''b'', inputs = [], opts = [],
            outputs = [''b''], deps = [''a''], altdeps = []\<rparr>"

text \<open>Two tasks for the examples: \<open>ex_b\<close> is built from the output of \<open>ex_a\<close>.\<close>

definition ex_a :: task where
  "ex_a = \<lparr>action = ''CompileAnything'', name = ''a'', inputs = [], opts = [],
           outputs = [''a''], deps = [], altdeps = []\<rparr>"

definition ex_b :: task where
  "ex_b = \<lparr>action = ''CompileAnything'', name = ''b'', inputs = [''a''], opts = [],
           outputs = [''b''], deps = [], altdeps = []\<rparr>"




text \<open>Answers of NeedsBuild and outcomes of actions used in the examples.\<close>

definition always_stale :: needs_build where
  "always_stale tr outs ds = True"

definition never_stale :: needs_build where
  "never_stale tr outs ds = False"

definition all_return :: executor where
  "all_return t = Returns"

definition only_a_raises :: executor where
  "only_a_raises t = (if name t = ''a'' then Raises else Returns)"


text \<open>A third task, independent of the other two.\<close>

definition ex_c :: task where
  "ex_c = \<lparr>action = ''CompileAnything'', name = ''c'', inputs = [], opts = [],
           outputs = [''c''], deps = [], altdeps = []\<rparr>"



text \<open>The state in which the run of the example ends, when the failure marker of
  \<open>ex_a\<close> is taken while \<open>ex_c\<close> is still in flight.\<close>

definition abort_state :: state where
  "abort_state =
     \<lparr>tasklist = [], pending = [''a'' \<mapsto> 1, ''c'' \<mapsto> 1], tasksqueued = 2,
      inflight = [ex_c],
      trace = [Ev_thread_start, Ev_thread_start,
               Ev_NeedsBuild [''a''] [], Ev_put ex_a [''a'' \<mapsto> 1, ''c'' \<mapsto> 1],
               Ev_NeedsBuild [''c''] [], Ev_put ex_c [''a'' \<mapsto> 1, ''c'' \<mapsto> 1]]\<rparr>"

text \<open>The positions (the counter \<open>i\<close>) of the actions called, in the order of the calls;
  an action call is in place when it is the call of the i-th task of the list.\<close>

primrec action_indices :: "event list \<Rightarrow> nat list" where
  "action_indices [] = []"
| "action_indices (e # es) =
     (case e of Ev_action t i n \<Rightarrow> i # action_indices es | _ \<Rightarrow> action_indices es)"

definition action_in_place :: "task list \<Rightarrow> event \<Rightarrow> bool" where
  "action_in_place tasks e = (case e of
      Ev_action t i n \<Rightarrow> i < length tasks \<and> tasks ! i = t \<and> n = length tasks
    | _ \<Rightarrow> True)"

text \<open>The events of a task that is stale and whose action returns, in SequentialMake.\<close>

definition run_events :: "nat \<Rightarrow> nat \<times> task \<Rightarrow> event list" where
  "run_events n it =
     [Ev_NeedsBuild (outputs (snd it)) (deps (snd it)), Ev_action (snd it) (fst it) n,
      Ev_JustBuilt (outputs (snd it)) (deps (snd it))]"

text \<open>A call of NeedsBuild or JustBuilt is in order when its two arguments are task[2] and
  task[3] of one task of the list; a put or an action call, when its task is of the list.\<close>

definition cache_call_ok :: "task list \<Rightarrow> event \<Rightarrow> bool" where
  "cache_call_ok tasks e = (case e of
      Ev_NeedsBuild a b \<Rightarrow> (a, b) \<in> set (map (\<lambda>t. (outputs t, deps t)) tasks)
    | Ev_JustBuilt a b \<Rightarrow> (a, b) \<in> set (map (\<lambda>t. (outputs t, deps t)) tasks)
    | Ev_put t p \<Rightarrow> t \<in> set tasks
    | Ev_action t i n \<Rightarrow> t \<in> set tasks
    | _ \<Rightarrow> True)"

text \<open>The number of times the cache was saved.\<close>

primrec save_count :: "event list \<Rightarrow> nat" where
  "save_count [] = 0"
| "save_count (e # es) =
     (case e of Ev_SaveDependencyCache \<Rightarrow> Suc (save_count es) | _ \<Rightarrow> save_count es)"

text \<open>The main program after RunDependencyQueue has ended with \<open>r\<close>: the cache has been
  saved once, as the last event, unless the run is still waiting.\<close>

definition saved_at_end :: "int \<Rightarrow> needs_build \<Rightarrow> executor \<Rightarrow> task list \<Rightarrow> nat list
    \<Rightarrow> event list result \<Rightarrow> bool" where
  "saved_at_end T nb exec tasks order r = (case r of
      Ok tr \<Rightarrow> main T nb exec tasks order = Some (Ok (tr @ [Ev_SaveDependencyCache]))
        \<and> save_count tr = 0 \<and> save_count (tr @ [Ev_SaveDependencyCache]) = 1
    | Raised e tr \<Rightarrow> main T nb exec tasks order = Some (Raised e (tr @ [Ev_SaveDependencyCache]))
        \<and> save_count tr = 0 \<and> save_count (tr @ [Ev_SaveDependencyCache]) = 1
    | Waiting tr \<Rightarrow> main T nb exec tasks order = Some (Waiting tr) \<and> save_count tr = 0)"

text \<open>A task whose deps differ from its inputs.\<close>

definition ex_obj :: task where
  "ex_obj = \<lparr>action = ''CompileAnything'', name = ''x.obj'', inputs = [''x.cxx''], opts = [],
             outputs = [''x.obj''], deps = [''x.cxx'', ''x.h''], altdeps = []\<rparr>"


section \<open>General lemmas\<close>

lemma run_iters_invariant:
  assumes init: "I s"
    and step: "\<And>s order. I s \<Longrightarrow>
        (case loop_body T nb exec s order of Continue s' order' \<Rightarrow> I s' | Finished r \<Rightarrow> Q r)"
  shows "case run_iters T nb exec n s order of Continue s' order' \<Rightarrow> I s' | Finished r \<Rightarrow> Q r"
  using init
proof (induction n arbitrary: s order)
  case 0
  then show ?case by simp
next
  case (Suc n)
  show ?case
  proof (cases "loop_body T nb exec s order")
    case (Continue s' order')
    with step [OF Suc.prems, of order] have "I s'" by simp
    from Suc.IH [OF this] Continue show ?thesis by simp
  next
    case (Finished r)
    with step [OF Suc.prems, of order] show ?thesis by simp
  qed
qed

text \<open>Every result of the while loop is reached after finitely many passes.\<close>

lemma loop_Some_run_iters:
  "ParallelMake_loop T nb exec s order = Some r \<Longrightarrow>
   \<exists>n. run_iters T nb exec n s order = Finished r"
proof (induction rule: ParallelMake_loop.raw_induct [rotated, consumes 1])
  case (1 f T nb exec s order r)
  show ?case
  proof (cases "loop_body T nb exec s order")
    case (Continue s' order')
    with 1(2) have "f T nb exec s' order' = Some r" by simp
    from 1(1) [OF this] obtain n where "run_iters T nb exec n s' order' = Finished r" by blast
    with Continue have "run_iters T nb exec (Suc n) s order = Finished r" by simp
    then show ?thesis by blast
  next
    case (Finished r')
    with 1(2) have "run_iters T nb exec (Suc 0) s order = Finished r" by simp
    then show ?thesis by blast
  qed
qed

lemma thread_starts_append: "thread_starts (xs @ ys) = thread_starts xs + thread_starts ys"
  by (induction xs) (auto split: event.splits)

lemma thread_starts_replicate: "thread_starts (replicate k Ev_thread_start) = k"
  by (induction k) auto

lemma none_pending_iff: "none_pending xs p \<longleftrightarrow> set xs \<inter> dom p = {}"
  by (induction xs) (auto split: option.splits)

lemma AllSourcesReady_iff:
  "AllSourcesReady t p \<longleftrightarrow> (set (deps t) \<union> set (inputs t) \<union> set (altdeps t)) \<inter> dom p = {}"
  by (auto simp: AllSourcesReady_def none_pending_iff)

lemma take_drop_length:
  "k < length fl \<Longrightarrow> Suc (length (take k fl @ drop (Suc k) fl)) = length fl"
  by auto

lemma donequeue_get_Some:
  assumes get: "donequeue_get exec fl order = Some (d, fl', order')"
  shows "\<exists>i k. order = i # order' \<and> k < length fl \<and> d = run_task exec (fl ! k)
     \<and> fl' = take k fl @ drop (Suc k) fl"
proof (cases order)
  case Nil
  with get show ?thesis by (simp add: donequeue_get_def)
next
  case (Cons i rest)
  with get have ne: "fl \<noteq> []" by (auto simp: donequeue_get_def split: if_splits)
  then have "i mod length fl < length fl" by simp
  moreover from get Cons ne have "order = i # order' \<and> d = run_task exec (fl ! (i mod length fl))
     \<and> fl' = take (i mod length fl) fl @ drop (Suc (i mod length fl)) fl"
    by (auto simp: donequeue_get_def Let_def)
  ultimately show ?thesis by blast
qed

lemma donequeue_get_length:
  assumes get: "donequeue_get exec fl order = Some (d, fl', order')"
  shows "Suc (length fl') = length fl"
  using donequeue_get_Some [OF get] take_drop_length by blast

section \<open>The worker\<close>

text \<open>
  C6. A worker puts exactly one entry on the done queue for each task it runs, in the
  order it runs them: the task itself when the action returns, the failure marker 0
  when the action raises. An action that raises does not end the worker: it goes on to
  the next item, and it returns only on the stop signal.
\<close>

theorem BuildWorker_one_entry_per_task:
  "BuildWorker exec q dq =
     (dq @ map (\<lambda>t. case exec t of Raises \<Rightarrow> Failure | Returns \<Rightarrow> Done t) (executed q),
      if Stop \<in> set q then Worker_returned else Worker_waiting)"
  by (induction exec q dq rule: BuildWorker.induct) (simp_all add: run_task_def)

section \<open>The starved scheduler\<close>

lemma scan_none_ready:
  "list_all (\<lambda>t. \<not> AllSourcesReady t (pending s)) ts \<Longrightarrow>
   scan T nb ts extras s = Inr (s\<lparr>tasklist := extras @ ts\<rparr>)"
  by (induction ts arbitrary: extras) simp_all

lemma starved_loop_body:
  assumes "tasksqueued s = 0" and "tasklist s \<noteq> []"
    and "list_all (\<lambda>t. \<not> AllSourcesReady t (pending s)) (tasklist s)"
  shows "loop_body T nb exec s order = Continue s order"
  using assms by (simp add: loop_body_def scan_phase_def scan_none_ready)

lemma fixed_point_never_returns_aux:
  assumes st: "loop_body T nb exec s order = Continue s order"
  shows "ParallelMake_loop T' nb' exec' s' order' = Some r \<Longrightarrow>
     \<not> (T' = T \<and> nb' = nb \<and> exec' = exec \<and> s' = s \<and> order' = order)"
  apply (erule ParallelMake_loop.raw_induct [rotated])
  using st apply (auto split: step.splits)
  apply blast
  done

lemma fixed_point_never_returns:
  "loop_body T nb exec s order = Continue s order \<Longrightarrow>
   ParallelMake_loop T nb exec s order = None"
  using fixed_point_never_returns_aux [of T nb exec s order T nb exec s order]
  by (cases "ParallelMake_loop T nb exec s order") auto

text \<open>In the starved state the loop never ends, whatever the width and the arrivals.\<close>

lemma starved_never_returns:
  assumes "tasksqueued s = 0" and "tasklist s \<noteq> []"
    and "list_all (\<lambda>t. \<not> AllSourcesReady t (pending s)) (tasklist s)"
  shows "ParallelMake_loop T nb exec s order = None"
  by (rule fixed_point_never_returns) (rule starved_loop_body [OF assms])

text \<open>
  C2. The claim is that a starved scheduler (tasks left, none ready, none in flight)
  aborts with the dependency error. On two tasks that wait for each other, with one
  worker, ParallelMake never returns: the \<^verbatim>\<open>continue\<close> taken when tasksqueued is 0
  and the list is not empty re-enters the loop in the same state, and the check after
  the loop is never reached.
\<close>

theorem ParallelMake_cycle_never_returns:
  "ParallelMake 1 always_stale all_return [cyc_a, cyc_b] [] [] = None"
proof -
  have "ParallelMake_loop 1 always_stale all_return
          (ParallelMake_init 1 [cyc_a, cyc_b] []) [] = None"
    by (rule starved_never_returns)
       (simp_all add: ParallelMake_init_def cyc_a_def cyc_b_def AllSourcesReady_def)
  then show ?thesis by (simp add: ParallelMake_def)
qed

section \<open>The width of the pool\<close>

lemma scan_sched_inv:
  "sched_inv T s \<Longrightarrow>
   (case scan T nb ts extras s of Inl (e, s') \<Rightarrow> sched_inv T s' | Inr s' \<Rightarrow> sched_inv T s')"
proof (induction T nb ts extras s rule: scan.induct)
  case (1 T nb extras s)
  then show ?case by (simp add: sched_inv_def within_width_def)
next
  case (2 T nb t ts extras s)
  show ?case
  proof (cases "tasksqueued s < T \<and> AllSourcesReady t (pending s)")
    case False
    from "2.IH"(3) [OF False "2.prems"] False show ?thesis by auto
  next
    case ready: True
    show ?thesis
    proof (cases "nb (trace s) (outputs t) (deps t)")
      case True
      let ?s' = "s\<lparr>tasksqueued := tasksqueued s + 1, inflight := inflight s @ [t],
                trace := trace s @ [Ev_NeedsBuild (outputs t) (deps t), Ev_put t (pending s)]\<rparr>"
      have "sched_inv T ?s'"
        using "2.prems" ready
        by (simp add: sched_inv_def within_width_def thread_starts_append)
      from "2.IH"(1) [OF ready True this] ready True show ?thesis by simp
    next
      case False
      show ?thesis
      proof (cases "del_targets (outputs t) (pending s)")
        case (Inl e)
        with ready False "2.prems" show ?thesis
          by (simp add: sched_inv_def within_width_def thread_starts_append)
      next
        case (Inr p)
        let ?s' = "s\<lparr>pending := p, trace := trace s @ [Ev_NeedsBuild (outputs t) (deps t)]\<rparr>"
        have "sched_inv T ?s'"
          using "2.prems"
          by (simp add: sched_inv_def within_width_def thread_starts_append)
        from "2.IH"(2) [OF ready False Inr this] ready False Inr show ?thesis by simp
      qed
    qed
  qed
qed

lemma scan_phase_sched_inv:
  "sched_inv T s \<Longrightarrow>
   (case scan_phase T nb s of Inl (e, s') \<Rightarrow> sched_inv T s' | Inr s' \<Rightarrow> sched_inv T s')"
  using scan_sched_inv [of T s nb "tasklist s" "[]"] by (simp add: scan_phase_def)

lemma loop_body_sched_inv:
  assumes "sched_inv T s"
  shows "case loop_body T nb exec s order of
           Continue s' order' \<Rightarrow> sched_inv T s' | Finished r \<Rightarrow> sched_inv T (result_state r)"
proof (cases "scan_phase T nb s")
  case (Inl a)
  with scan_phase_sched_inv [OF assms, of nb] show ?thesis
    by (cases a) (simp add: loop_body_def)
next
  case (Inr s1)
  with scan_phase_sched_inv [OF assms, of nb] have inv1: "sched_inv T s1" by simp
  show ?thesis
  proof (cases "tasksqueued s1 = 0")
    case True
    with Inr inv1 show ?thesis by (simp add: loop_body_def)
  next
    case nz: False
    show ?thesis
    proof (cases "donequeue_get exec (inflight s1) order")
      case None
      with Inr nz inv1 show ?thesis by (simp add: loop_body_def)
    next
      case (Some a)
      then obtain d fl order' where a: "a = (d, fl, order')" by (cases a) auto
      from Some a have len: "Suc (length fl) = length (inflight s1)"
        by (simp add: donequeue_get_length)
      show ?thesis
      proof (cases d)
        case Failure
        with Inr nz Some a inv1 len show ?thesis
          by (simp add: loop_body_def sched_inv_def within_width_def)
      next
        case (Done donetask)
        with Inr nz Some a inv1 len show ?thesis
          by (auto simp: loop_body_def sched_inv_def within_width_def Let_def
              thread_starts_append split: sum.splits)
      qed
    qed
  qed
qed

lemma init_sched_inv: "0 \<le> T \<Longrightarrow> sched_inv T (ParallelMake_init T tasks [])"
  by (simp add: sched_inv_def within_width_def ParallelMake_init_def thread_starts_replicate)

lemma run_iters_sched_inv:
  assumes "0 \<le> T"
  shows "sched_inv T (step_state (run_iters T nb exec n (ParallelMake_init T tasks []) order))"
proof -
  have "case run_iters T nb exec n (ParallelMake_init T tasks []) order of
          Continue s' order' \<Rightarrow> sched_inv T s' | Finished r \<Rightarrow> sched_inv T (result_state r)"
    by (rule run_iters_invariant [where I = "sched_inv T"])
       (simp_all add: init_sched_inv assms loop_body_sched_inv)
  then show ?thesis
    by (cases "run_iters T nb exec n (ParallelMake_init T tasks []) order") simp_all
qed

text \<open>
  C8. With a positive width, at every pass through the ParallelMake loop, and after the
  rescan of the pass that follows, the counter tasksqueued lies between 0 and
  THREADCOUNT and bounds the number of tasks in flight; and exactly THREADCOUNT worker
  threads have been started.
\<close>

theorem tasksqueued_within_THREADCOUNT:
  assumes "0 < T"
  shows "within_width T (step_state (run_iters T nb exec n (ParallelMake_init T tasks []) order))
    \<and> (case scan_phase T nb
               (step_state (run_iters T nb exec n (ParallelMake_init T tasks []) order)) of
          Inl (e, s') \<Rightarrow> within_width T s' | Inr s' \<Rightarrow> within_width T s')
    \<and> int (thread_starts
         (trace (step_state (run_iters T nb exec n (ParallelMake_init T tasks []) order)))) = T"
proof -
  let ?s = "step_state (run_iters T nb exec n (ParallelMake_init T tasks []) order)"
  from assms have inv: "sched_inv T ?s" by (simp add: run_iters_sched_inv)
  from scan_phase_sched_inv [OF inv, of nb]
  have "case scan_phase T nb ?s of Inl (e, s') \<Rightarrow> within_width T s' | Inr s' \<Rightarrow> within_width T s'"
    by (auto simp: sched_inv_def split: sum.splits)
  with inv assms show ?thesis by (simp add: sched_inv_def)
qed

theorem tasksqueued_within_THREADCOUNT_witness:
  "(0::int) < 2
    \<and> within_width 2 (step_state (run_iters 2 always_stale all_return 1
          (ParallelMake_init 2 [ex_b, ex_a] []) [0]))
    \<and> (case scan_phase 2 always_stale
               (step_state (run_iters 2 always_stale all_return 1
                  (ParallelMake_init 2 [ex_b, ex_a] []) [0])) of
          Inl (e, s') \<Rightarrow> within_width 2 s' | Inr s' \<Rightarrow> within_width 2 s')
    \<and> int (thread_starts (trace (step_state (run_iters 2 always_stale all_return 1
          (ParallelMake_init 2 [ex_b, ex_a] []) [0])))) = 2"
  using tasksqueued_within_THREADCOUNT [of 2 always_stale all_return 1 "[ex_b, ex_a]" "[0]"]
  by simp

section \<open>Dispatch only when the sources are ready\<close>

lemma dispatch_ok_simps:
  "dispatch_ok (Ev_put t p) \<longleftrightarrow>
     (set (deps t) \<union> set (inputs t) \<union> set (altdeps t)) \<inter> dom p = {}"
  "dispatch_ok Ev_thread_start"
  "dispatch_ok (Ev_NeedsBuild a b)"
  "dispatch_ok Ev_put_stop"
  "dispatch_ok (Ev_JustBuilt a b)"
  "dispatch_ok (Ev_action t i k)"
  "dispatch_ok Ev_SaveDependencyCache"
  by (simp_all add: dispatch_ok_def)

lemma scan_dispatch_ok:
  "list_all dispatch_ok (trace s) \<Longrightarrow>
   (case scan T nb ts extras s of
      Inl (e, s') \<Rightarrow> list_all dispatch_ok (trace s')
    | Inr s' \<Rightarrow> list_all dispatch_ok (trace s'))"
proof (induction T nb ts extras s rule: scan.induct)
  case (1 T nb extras s)
  then show ?case by simp
next
  case (2 T nb t ts extras s)
  show ?case
  proof (cases "tasksqueued s < T \<and> AllSourcesReady t (pending s)")
    case False
    from "2.IH"(3) [OF False "2.prems"] False show ?thesis by auto
  next
    case ready: True
    show ?thesis
    proof (cases "nb (trace s) (outputs t) (deps t)")
      case True
      let ?s' = "s\<lparr>tasksqueued := tasksqueued s + 1, inflight := inflight s @ [t],
                trace := trace s @ [Ev_NeedsBuild (outputs t) (deps t), Ev_put t (pending s)]\<rparr>"
      have "list_all dispatch_ok (trace ?s')"
        using "2.prems" ready by (simp add: dispatch_ok_simps AllSourcesReady_iff)
      from "2.IH"(1) [OF ready True this] ready True show ?thesis by simp
    next
      case False
      show ?thesis
      proof (cases "del_targets (outputs t) (pending s)")
        case (Inl e)
        with ready False "2.prems" show ?thesis by (simp add: dispatch_ok_simps)
      next
        case (Inr p)
        let ?s' = "s\<lparr>pending := p, trace := trace s @ [Ev_NeedsBuild (outputs t) (deps t)]\<rparr>"
        have "list_all dispatch_ok (trace ?s')"
          using "2.prems" by (simp add: dispatch_ok_simps)
        from "2.IH"(2) [OF ready False Inr this] ready False Inr show ?thesis by simp
      qed
    qed
  qed
qed

lemma loop_body_dispatch_ok:
  assumes "list_all dispatch_ok (trace s)"
  shows "case loop_body T nb exec s order of
           Continue s' order' \<Rightarrow> list_all dispatch_ok (trace s')
         | Finished r \<Rightarrow> list_all dispatch_ok (trace (result_state r))"
proof -
  have sc: "case scan_phase T nb s of
      Inl (e, s') \<Rightarrow> list_all dispatch_ok (trace s')
    | Inr s' \<Rightarrow> list_all dispatch_ok (trace s')"
    using scan_dispatch_ok [OF assms, of T nb "tasklist s" "[]"] assms
    by (simp add: scan_phase_def)
  show ?thesis
  proof (cases "scan_phase T nb s")
    case (Inl a)
    with sc show ?thesis by (cases a) (simp add: loop_body_def)
  next
    case (Inr s1)
    with sc have "list_all dispatch_ok (trace s1)" by simp
    with Inr show ?thesis
      by (auto simp: loop_body_def Let_def dispatch_ok_simps
          split: option.splits done_entry.splits sum.splits)
  qed
qed

text \<open>
  C1. Along every run of the ParallelMake loop, whatever the width, the answers of
  NeedsBuild, the outcomes of the actions and the order of arrivals: every
  taskqueue.put(task) happens at a moment when no explicit dep (task[3]), no input
  (task[1][1]) and no alternate dep (task[4]) of the task is a key of pending.
\<close>

theorem dispatch_only_when_sources_ready:
  "list_all dispatch_ok
     (trace (step_state (run_iters T nb exec n (ParallelMake_init T tasks []) order)))"
proof -
  have "list_all dispatch_ok (trace (ParallelMake_init T tasks []))"
    by (simp add: ParallelMake_init_def list_all_iff dispatch_ok_simps)
  then have "case run_iters T nb exec n (ParallelMake_init T tasks []) order of
          Continue s' order' \<Rightarrow> list_all dispatch_ok (trace s')
        | Finished r \<Rightarrow> list_all dispatch_ok (trace (result_state r))"
    by (rule run_iters_invariant [where I = "\<lambda>s. list_all dispatch_ok (trace s)"])
       (rule loop_body_dispatch_ok)
  then show ?thesis
    by (cases "run_iters T nb exec n (ParallelMake_init T tasks []) order") simp_all
qed

section \<open>The pending set\<close>




lemma del_targets_present:
  "distinct xs \<Longrightarrow> set xs \<subseteq> dom p \<Longrightarrow>
   \<exists>p'. del_targets xs p = Inr p' \<and> dom p' = dom p - set xs"
proof (induction xs arbitrary: p)
  case Nil
  then show ?case by simp
next
  case (Cons x xs)
  from Cons.prems obtain v where v: "p x = Some v" by auto
  from Cons.prems have "distinct xs" and "set xs \<subseteq> dom (p(x := None))" by auto
  from Cons.IH [OF this] obtain p' where
    "del_targets xs (p(x := None)) = Inr p'" and "dom p' = dom (p(x := None)) - set xs"
    by blast
  with v show ?case by auto
qed



lemma run_task_Done: "run_task exec t = Done t' \<Longrightarrow> t' = t"
  by (cases "exec t") (simp_all add: run_task_def)

















text \<open>The registry is what the property rests on. A task list that declares an output
  twice is not a dependency queue; on such a list, here the same task twice with two
  workers, the second deletion of the key raises KeyError.\<close>

lemma duplicate_output_KeyError:
  "(case ParallelMake 2 always_stale all_return [ex_a, ex_a] [0, 0] [] of
      Some (Raised e s) \<Rightarrow> e = KeyError ''a''
    | _ \<Rightarrow> False)"
  by (simp add: ParallelMake_def ParallelMake_loop.simps loop_body_def scan_phase_def
      ParallelMake_init_def ex_a_def AllSourcesReady_def always_stale_def all_return_def
      donequeue_get_def run_task_def)

section \<open>Tasks that are up to date\<close>

text \<open>
  C3, as stated, fails: a ready task for which NeedsBuild answers false is skipped
  without any call of JustBuilt. With one worker and the single task \<open>ex_a\<close>,
  ParallelMake asks NeedsBuild, removes the output from pending and ends; the only
  events are the thread start, the NeedsBuild call and the stop signal. SequentialMake
  on the same list only asks NeedsBuild.
\<close>

theorem skip_calls_no_JustBuilt:
  "map_option (map_result trace) (ParallelMake 1 never_stale all_return [ex_a] [] [])
     = Some (Ok [Ev_thread_start, Ev_NeedsBuild [''a''] [], Ev_put_stop])
   \<and> SequentialMake never_stale all_return [ex_a] [] = Ok [Ev_NeedsBuild [''a''] []]"
  by (simp add: ParallelMake_def ParallelMake_loop.simps loop_body_def scan_phase_def
      ParallelMake_init_def ParallelMake_finish_def ex_a_def AllSourcesReady_def
      never_stale_def SequentialMake_def)

text \<open>
  C3, amended. When the rescan of ParallelMake meets a ready task, with a free slot,
  for which NeedsBuild answers false, it goes on with the rest of the list from a state
  where the outputs of the task are no longer keys of pending and nothing else has
  changed but the trace, which has the NeedsBuild call and nothing more: no put on the
  task queue, no change of tasksqueued, no JustBuilt. SequentialMake, which keeps no
  pending set, passes such a task with the NeedsBuild call as its only event.
\<close>

theorem skip_step_effects:
  assumes "tasksqueued s < T" and "AllSourcesReady t (pending s)"
    and "\<not> nb (trace s) (outputs t) (deps t)"
    and "distinct (outputs t)" and "set (outputs t) \<subseteq> dom (pending s)"
  shows "(\<exists>s'. scan T nb (t # ts) extras s = scan T nb ts extras s'
        \<and> dom (pending s') = dom (pending s) - set (outputs t)
        \<and> tasksqueued s' = tasksqueued s \<and> inflight s' = inflight s
        \<and> tasklist s' = tasklist s
        \<and> trace s' = trace s @ [Ev_NeedsBuild (outputs t) (deps t)])
    \<and> (\<not> nb tr (outputs t) (deps t) \<longrightarrow>
         SequentialMake_loop nb exec n i (t # ts) tr
           = SequentialMake_loop nb exec n (i + 1) ts (tr @ [Ev_NeedsBuild (outputs t) (deps t)]))"
proof -
  from del_targets_present [OF assms(4,5)] obtain p where
    p: "del_targets (outputs t) (pending s) = Inr p"
    and dp: "dom p = dom (pending s) - set (outputs t)" by blast
  let ?s' = "s\<lparr>pending := p, trace := trace s @ [Ev_NeedsBuild (outputs t) (deps t)]\<rparr>"
  from assms(1-3) p have "scan T nb (t # ts) extras s = scan T nb ts extras ?s'" by simp
  with dp have "\<exists>s'. scan T nb (t # ts) extras s = scan T nb ts extras s'
        \<and> dom (pending s') = dom (pending s) - set (outputs t)
        \<and> tasksqueued s' = tasksqueued s \<and> inflight s' = inflight s
        \<and> tasklist s' = tasklist s
        \<and> trace s' = trace s @ [Ev_NeedsBuild (outputs t) (deps t)]"
    by (intro exI [of _ ?s']) simp
  then show ?thesis by simp
qed

theorem skip_step_effects_witness:
  "tasksqueued (ParallelMake_init 1 [ex_a] []) < 1
   \<and> AllSourcesReady ex_a (pending (ParallelMake_init 1 [ex_a] []))
   \<and> \<not> never_stale (trace (ParallelMake_init 1 [ex_a] [])) (outputs ex_a) (deps ex_a)
   \<and> distinct (outputs ex_a)
   \<and> set (outputs ex_a) \<subseteq> dom (pending (ParallelMake_init 1 [ex_a] []))
   \<and> (\<exists>s'. scan 1 never_stale [ex_a] [] (ParallelMake_init 1 [ex_a] [])
              = scan 1 never_stale [] [] s'
        \<and> dom (pending s') = dom (pending (ParallelMake_init 1 [ex_a] [])) - set (outputs ex_a)
        \<and> tasksqueued s' = tasksqueued (ParallelMake_init 1 [ex_a] [])
        \<and> inflight s' = inflight (ParallelMake_init 1 [ex_a] [])
        \<and> tasklist s' = tasklist (ParallelMake_init 1 [ex_a] [])
        \<and> trace s' = trace (ParallelMake_init 1 [ex_a] [])
             @ [Ev_NeedsBuild (outputs ex_a) (deps ex_a)])
   \<and> SequentialMake_loop never_stale all_return 1 0 [ex_a] []
        = SequentialMake_loop never_stale all_return 1 (0 + 1) []
            ([] @ [Ev_NeedsBuild (outputs ex_a) (deps ex_a)])"
proof -
  have h1: "tasksqueued (ParallelMake_init 1 [ex_a] []) < 1"
    by (simp add: ParallelMake_init_def)
  have h2: "AllSourcesReady ex_a (pending (ParallelMake_init 1 [ex_a] []))"
    by (simp add: ParallelMake_init_def AllSourcesReady_def ex_a_def)
  have h3: "\<not> never_stale (trace (ParallelMake_init 1 [ex_a] [])) (outputs ex_a) (deps ex_a)"
    by (simp add: never_stale_def)
  have h4: "distinct (outputs ex_a)" by (simp add: ex_a_def)
  have h5: "set (outputs ex_a) \<subseteq> dom (pending (ParallelMake_init 1 [ex_a] []))"
    by (simp add: ParallelMake_init_def ex_a_def)
  have h6: "\<not> never_stale [] (outputs ex_a) (deps ex_a)" by (simp add: never_stale_def)
  from skip_step_effects [where s = "ParallelMake_init 1 [ex_a] []" and T = 1 and t = ex_a
      and nb = never_stale and ts = "[]" and extras = "[]" and tr = "[]" and exec = all_return
      and n = 1 and i = 0, OF h1 h2 h3 h4 h5] h6
  have "(\<exists>s'. scan 1 never_stale [ex_a] [] (ParallelMake_init 1 [ex_a] [])
              = scan 1 never_stale [] [] s'
        \<and> dom (pending s') = dom (pending (ParallelMake_init 1 [ex_a] [])) - set (outputs ex_a)
        \<and> tasksqueued s' = tasksqueued (ParallelMake_init 1 [ex_a] [])
        \<and> inflight s' = inflight (ParallelMake_init 1 [ex_a] [])
        \<and> tasklist s' = tasklist (ParallelMake_init 1 [ex_a] [])
        \<and> trace s' = trace (ParallelMake_init 1 [ex_a] [])
             @ [Ev_NeedsBuild (outputs ex_a) (deps ex_a)])
   \<and> SequentialMake_loop never_stale all_return 1 0 [ex_a] []
        = SequentialMake_loop never_stale all_return 1 (0 + 1) []
            ([] @ [Ev_NeedsBuild (outputs ex_a) (deps ex_a)])"
    by blast
  with h1 h2 h3 h4 h5 show ?thesis by blast
qed

section \<open>The failure marker\<close>












section \<open>The sequential fallback\<close>

text \<open>
  C5, as stated, fails: SequentialMake has no readiness check. On the list
  \<open>[ex_b, ex_a]\<close>, where \<open>ex_b\<close> takes the output of \<open>ex_a\<close> as input, it calls
  the action of \<open>ex_b\<close> first, before \<open>ex_a\<close> has been built.
\<close>

theorem SequentialMake_runs_consumer_first:
  "SequentialMake always_stale all_return [ex_b, ex_a] []
     = Ok [Ev_NeedsBuild [''b''] [], Ev_action ex_b 0 2, Ev_JustBuilt [''b''] [],
           Ev_NeedsBuild [''a''] [], Ev_action ex_a 1 2, Ev_JustBuilt [''a''] []]
   \<and> inputs ex_b = outputs ex_a"
  by (simp add: SequentialMake_def always_stale_def all_return_def ex_a_def ex_b_def)

lemma action_indices_append:
  "action_indices (xs @ ys) = action_indices xs @ action_indices ys"
  by (induction xs) (auto split: event.splits)

lemma action_in_place_simps:
  "action_in_place tasks (Ev_action t i n) \<longleftrightarrow>
     i < length tasks \<and> tasks ! i = t \<and> n = length tasks"
  "action_in_place tasks (Ev_NeedsBuild a b)"
  "action_in_place tasks (Ev_JustBuilt a b)"
  by (simp_all add: action_in_place_def)

lemma SequentialMake_loop_in_order:
  assumes "tasks = pre @ ts" and "i = length pre" and "n = length tasks"
    and "list_all (action_in_place tasks) tr"
    and "sorted_wrt (<) (action_indices tr)"
    and "list_all (\<lambda>j. j < i) (action_indices tr)"
  shows "list_all (action_in_place tasks) (result_state (SequentialMake_loop nb exec n i ts tr))
    \<and> sorted_wrt (<) (action_indices (result_state (SequentialMake_loop nb exec n i ts tr)))"
  using assms
proof (induction ts arbitrary: pre i tr)
  case Nil
  then show ?case by simp
next
  case (Cons t ts)
  have pos: "i < length tasks" and nth: "tasks ! i = t"
    using Cons.prems(1,2) by simp_all
  have tasks': "tasks = (pre @ [t]) @ ts" and i': "i + 1 = length (pre @ [t])"
    using Cons.prems(1,2) by simp_all
  have less: "list_all (\<lambda>j. j < i + 1) (action_indices tr)"
    using Cons.prems(6) by (auto simp: list_all_iff)
  show ?case
  proof (cases "nb tr (outputs t) (deps t)")
    case False
    let ?tr = "tr @ [Ev_NeedsBuild (outputs t) (deps t)]"
    have "list_all (action_in_place tasks) (result_state (SequentialMake_loop nb exec n (i + 1) ts ?tr))
      \<and> sorted_wrt (<) (action_indices (result_state (SequentialMake_loop nb exec n (i + 1) ts ?tr)))"
      using Cons.prems(3-5) less
      by (intro Cons.IH [OF tasks' i'])
         (simp_all add: action_in_place_simps action_indices_append)
    with False show ?thesis by simp
  next
    case True
    let ?tr1 = "tr @ [Ev_NeedsBuild (outputs t) (deps t), Ev_action t i n]"
    let ?tr2 = "tr @ [Ev_NeedsBuild (outputs t) (deps t), Ev_action t i n,
                      Ev_JustBuilt (outputs t) (deps t)]"
    have srt: "sorted_wrt (<) (action_indices tr @ [i])"
      using Cons.prems(5,6) by (auto simp: sorted_wrt_append list_all_iff)
    show ?thesis
    proof (cases "exec t")
      case Raises
      have "list_all (action_in_place tasks) ?tr1 \<and> sorted_wrt (<) (action_indices ?tr1)"
        using Cons.prems(3,4) pos nth srt
        by (simp add: action_in_place_simps action_indices_append)
      with True Raises show ?thesis by simp
    next
      case Returns
      have "list_all (action_in_place tasks) (result_state (SequentialMake_loop nb exec n (i + 1) ts ?tr2))
        \<and> sorted_wrt (<) (action_indices (result_state (SequentialMake_loop nb exec n (i + 1) ts ?tr2)))"
        using Cons.prems(3,4) pos nth srt less
        by (intro Cons.IH [OF tasks' i'])
           (simp_all add: action_in_place_simps action_indices_append)
      with True Returns show ?thesis by simp
    qed
  qed
qed

lemma SequentialMake_loop_all_stale:
  "SequentialMake_loop always_stale all_return n i ts tr
     = Ok (tr @ concat (map (run_events n) (enumerate i ts)))"
  by (induction ts arbitrary: i tr)
     (simp_all add: always_stale_def all_return_def run_events_def)

text \<open>
  C5, amended. With width 0, SequentialMake works on the calling thread through the
  task list in list order, one task at a time, and consults no pending set: every
  action called is the call of the i-th task at the i-th step, and the positions of
  the calls increase strictly. When every task is stale and every action returns, every
  task is run, in list order, whatever its inputs and deps. So dependency order is
  respected only where the list is already in dependency order.
\<close>

theorem SequentialMake_in_list_order:
  "list_all (action_in_place tasks) (result_state (SequentialMake nb exec tasks []))
   \<and> sorted_wrt (<) (action_indices (result_state (SequentialMake nb exec tasks [])))
   \<and> SequentialMake always_stale all_return tasks []
       = Ok (concat (map (run_events (length tasks)) (enumerate 0 tasks)))"
proof -
  have "list_all (action_in_place tasks)
          (result_state (SequentialMake_loop nb exec (length tasks) 0 tasks []))
    \<and> sorted_wrt (<) (action_indices
          (result_state (SequentialMake_loop nb exec (length tasks) 0 tasks [])))"
    by (rule SequentialMake_loop_in_order [where pre = "[]"]) simp_all
  then show ?thesis
    by (simp add: SequentialMake_def SequentialMake_loop_all_stale)
qed

section \<open>What is recorded in the trace\<close>

text \<open>The trace grows only by events of the tasks at hand: a property of events that
  holds of those is kept along the rescan and along the loop.\<close>

lemma scan_trace:
  assumes ev: "\<And>t p. t \<in> A \<Longrightarrow> P (Ev_NeedsBuild (outputs t) (deps t)) \<and> P (Ev_put t p)"
    and "set ts \<subseteq> A" and "set extras \<subseteq> A" and "set (inflight s) \<subseteq> A"
    and "list_all P (trace s)"
  shows "case scan T nb ts extras s of
      Inl (e, s') \<Rightarrow> list_all P (trace s')
    | Inr s' \<Rightarrow> list_all P (trace s') \<and> set (tasklist s') \<subseteq> A \<and> set (inflight s') \<subseteq> A"
  using assms(2-)
proof (induction T nb ts extras s rule: scan.induct)
  case (1 T nb extras s)
  then show ?case by simp
next
  case (2 T nb t ts extras s)
  from "2.prems" have tA: "t \<in> A" and tsA: "set ts \<subseteq> A" by simp_all
  show ?case
  proof (cases "tasksqueued s < T \<and> AllSourcesReady t (pending s)")
    case False
    have "case scan T nb ts (extras @ [t]) s of
        Inl (e, s') \<Rightarrow> list_all P (trace s')
      | Inr s' \<Rightarrow> list_all P (trace s') \<and> set (tasklist s') \<subseteq> A \<and> set (inflight s') \<subseteq> A"
      using "2.prems" tA tsA by (intro "2.IH"(3) [OF False]) simp_all
    with False show ?thesis by auto
  next
    case ready: True
    show ?thesis
    proof (cases "nb (trace s) (outputs t) (deps t)")
      case True
      let ?s' = "s\<lparr>tasksqueued := tasksqueued s + 1, inflight := inflight s @ [t],
                trace := trace s @ [Ev_NeedsBuild (outputs t) (deps t), Ev_put t (pending s)]\<rparr>"
      have "case scan T nb ts extras ?s' of
          Inl (e, s') \<Rightarrow> list_all P (trace s')
        | Inr s' \<Rightarrow> list_all P (trace s') \<and> set (tasklist s') \<subseteq> A \<and> set (inflight s') \<subseteq> A"
        using "2.prems" tA tsA ev [OF tA] by (intro "2.IH"(1) [OF ready True]) simp_all
      with ready True show ?thesis by simp
    next
      case False
      show ?thesis
      proof (cases "del_targets (outputs t) (pending s)")
        case (Inl e)
        with ready False "2.prems" ev [OF tA] show ?thesis by simp
      next
        case (Inr p)
        let ?s' = "s\<lparr>pending := p, trace := trace s @ [Ev_NeedsBuild (outputs t) (deps t)]\<rparr>"
        have "case scan T nb ts extras ?s' of
            Inl (e, s') \<Rightarrow> list_all P (trace s')
          | Inr s' \<Rightarrow> list_all P (trace s') \<and> set (tasklist s') \<subseteq> A \<and> set (inflight s') \<subseteq> A"
          using "2.prems" tA tsA ev [OF tA] by (intro "2.IH"(2) [OF ready False Inr]) simp_all
        with ready False Inr show ?thesis by simp
      qed
    qed
  qed
qed

lemma loop_body_trace:
  assumes ev: "\<And>t p. t \<in> A \<Longrightarrow> P (Ev_NeedsBuild (outputs t) (deps t)) \<and> P (Ev_put t p)
      \<and> P (Ev_JustBuilt (outputs t) (deps t))"
    and inv: "list_all P (trace s) \<and> set (tasklist s) \<subseteq> A \<and> set (inflight s) \<subseteq> A"
  shows "case loop_body T nb exec s order of
      Continue s' order' \<Rightarrow>
        list_all P (trace s') \<and> set (tasklist s') \<subseteq> A \<and> set (inflight s') \<subseteq> A
    | Finished r \<Rightarrow> list_all P (trace (result_state r))"
proof -
  have sc: "case scan_phase T nb s of
      Inl (e, s') \<Rightarrow> list_all P (trace s')
    | Inr s' \<Rightarrow> list_all P (trace s') \<and> set (tasklist s') \<subseteq> A \<and> set (inflight s') \<subseteq> A"
  proof (cases "tasksqueued s < T")
    case True
    have "case scan T nb (tasklist s) [] s of
        Inl (e, s') \<Rightarrow> list_all P (trace s')
      | Inr s' \<Rightarrow> list_all P (trace s') \<and> set (tasklist s') \<subseteq> A \<and> set (inflight s') \<subseteq> A"
      using inv ev by (intro scan_trace [where A = A]) simp_all
    with True show ?thesis by (simp add: scan_phase_def)
  next
    case False
    with inv show ?thesis by (simp add: scan_phase_def)
  qed
  show ?thesis
  proof (cases "scan_phase T nb s")
    case (Inl a)
    with sc show ?thesis by (cases a) (simp add: loop_body_def)
  next
    case (Inr s1)
    with sc have inv1: "list_all P (trace s1)" "set (tasklist s1) \<subseteq> A" "set (inflight s1) \<subseteq> A"
      by simp_all
    show ?thesis
    proof (cases "tasksqueued s1 = 0")
      case True
      with Inr inv1 show ?thesis by (simp add: loop_body_def)
    next
      case nz: False
      show ?thesis
      proof (cases "donequeue_get exec (inflight s1) order")
        case None
        with Inr nz inv1 show ?thesis by (simp add: loop_body_def)
      next
        case (Some a)
        then obtain d fl order' where a: "a = (d, fl, order')" by (cases a) auto
        from donequeue_get_Some [OF Some [unfolded a]] obtain i k where
          k: "k < length (inflight s1)" and d: "d = run_task exec (inflight s1 ! k)"
          and fl: "fl = take k (inflight s1) @ drop (Suc k) (inflight s1)" by blast
        from fl inv1(3) have flA: "set fl \<subseteq> A"
          by (auto dest: in_set_takeD in_set_dropD)
        show ?thesis
        proof (cases d)
          case Failure
          with Inr nz Some a inv1 show ?thesis by (simp add: loop_body_def)
        next
          case (Done donetask)
          with d have "donetask = inflight s1 ! k" by (simp add: run_task_Done)
          with k inv1(3) have "donetask \<in> A" by (auto simp: subset_iff)
          from ev [OF this] have "P (Ev_JustBuilt (outputs donetask) (deps donetask))" by simp
          with Inr nz Some a Done inv1 flA show ?thesis
            by (auto simp: loop_body_def Let_def split: sum.splits)
        qed
      qed
    qed
  qed
qed

lemma run_iters_trace:
  assumes ev: "\<And>t p. t \<in> set tasks \<Longrightarrow> P (Ev_NeedsBuild (outputs t) (deps t)) \<and> P (Ev_put t p)
      \<and> P (Ev_JustBuilt (outputs t) (deps t))"
    and start: "list_all P tr" "P Ev_thread_start"
  shows "list_all P (trace (step_state (run_iters T nb exec n (ParallelMake_init T tasks tr) order)))"
proof -
  have "case run_iters T nb exec n (ParallelMake_init T tasks tr) order of
      Continue s' order' \<Rightarrow>
        list_all P (trace s') \<and> set (tasklist s') \<subseteq> set tasks \<and> set (inflight s') \<subseteq> set tasks
    | Finished r \<Rightarrow> list_all P (trace (result_state r))"
  proof (rule run_iters_invariant [where I = "\<lambda>s. list_all P (trace s)
        \<and> set (tasklist s) \<subseteq> set tasks \<and> set (inflight s) \<subseteq> set tasks"])
    show "list_all P (trace (ParallelMake_init T tasks tr))
        \<and> set (tasklist (ParallelMake_init T tasks tr)) \<subseteq> set tasks
        \<and> set (inflight (ParallelMake_init T tasks tr)) \<subseteq> set tasks"
      using start by (auto simp: ParallelMake_init_def list_all_iff)
  next
    fix s :: state and order
    assume a: "list_all P (trace s) \<and> set (tasklist s) \<subseteq> set tasks \<and> set (inflight s) \<subseteq> set tasks"
    show "case loop_body T nb exec s order of
        Continue s' order' \<Rightarrow>
          list_all P (trace s') \<and> set (tasklist s') \<subseteq> set tasks \<and> set (inflight s') \<subseteq> set tasks
      | Finished r \<Rightarrow> list_all P (trace (result_state r))"
    proof (rule loop_body_trace [where A = "set tasks" and P = P])
      show "P (Ev_NeedsBuild (outputs t) (deps t)) \<and> P (Ev_put t p)
          \<and> P (Ev_JustBuilt (outputs t) (deps t))" if "t \<in> set tasks" for t p
        using ev [OF that] by simp
    qed (rule a)
  qed
  then show ?thesis
    by (cases "run_iters T nb exec n (ParallelMake_init T tasks tr) order") simp_all
qed

lemma SequentialMake_loop_trace:
  assumes ev: "\<And>t i n. t \<in> A \<Longrightarrow> P (Ev_NeedsBuild (outputs t) (deps t)) \<and> P (Ev_action t i n)
      \<and> P (Ev_JustBuilt (outputs t) (deps t))"
    and "set ts \<subseteq> A" and "list_all P tr"
  shows "list_all P (result_state (SequentialMake_loop nb exec n i ts tr))"
  using assms(2-)
proof (induction ts arbitrary: i tr)
  case Nil
  then show ?case by simp
next
  case (Cons t ts)
  from Cons.prems have tA: "t \<in> A" and tsA: "set ts \<subseteq> A" by simp_all
  from Cons.IH [OF tsA] Cons.prems(2) ev [OF tA] show ?case
    by (auto split: outcome.splits)
qed

lemma cache_call_ok_simps:
  "cache_call_ok tasks (Ev_NeedsBuild a b) \<longleftrightarrow>
     (a, b) \<in> set (map (\<lambda>t. (outputs t, deps t)) tasks)"
  "cache_call_ok tasks (Ev_JustBuilt a b) \<longleftrightarrow>
     (a, b) \<in> set (map (\<lambda>t. (outputs t, deps t)) tasks)"
  "cache_call_ok tasks (Ev_put t p) \<longleftrightarrow> t \<in> set tasks"
  "cache_call_ok tasks (Ev_action t i n) \<longleftrightarrow> t \<in> set tasks"
  "cache_call_ok tasks Ev_thread_start"
  by (simp_all add: cache_call_ok_def)

text \<open>
  C10. In every run of ParallelMake and of SequentialMake, every call of NeedsBuild and
  every call of JustBuilt has as its two arguments task[2] and task[3] (the outputs and
  the explicit deps) of a task of the list; the input list task[1][1] is passed to the
  action only, as part of task[1]. For the task \<open>ex_obj\<close>, whose deps differ from its
  inputs, both calls carry the deps.
\<close>

theorem staleness_over_deps:
  "list_all (cache_call_ok tasks)
     (trace (step_state (run_iters T nb exec n (ParallelMake_init T tasks []) order)))
   \<and> list_all (cache_call_ok tasks) (result_state (SequentialMake nb exec tasks []))
   \<and> SequentialMake always_stale all_return [ex_obj] []
       = Ok [Ev_NeedsBuild [''x.obj''] [''x.cxx'', ''x.h''], Ev_action ex_obj 0 1,
             Ev_JustBuilt [''x.obj''] [''x.cxx'', ''x.h'']]
   \<and> map_option (map_result trace) (ParallelMake 1 always_stale all_return [ex_obj] [0] [])
       = Some (Ok [Ev_thread_start, Ev_NeedsBuild [''x.obj''] [''x.cxx'', ''x.h''],
                   Ev_put ex_obj [''x.obj'' \<mapsto> 1],
                   Ev_JustBuilt [''x.obj''] [''x.cxx'', ''x.h''], Ev_put_stop])"
proof -
  have par: "list_all (cache_call_ok tasks)
     (trace (step_state (run_iters T nb exec n (ParallelMake_init T tasks []) order)))"
    by (rule run_iters_trace) (auto simp: cache_call_ok_simps)
  have seq: "list_all (cache_call_ok tasks) (result_state (SequentialMake nb exec tasks []))"
    unfolding SequentialMake_def
    by (rule SequentialMake_loop_trace [where A = "set tasks"])
       (auto simp: cache_call_ok_simps)
  have ex1: "SequentialMake always_stale all_return [ex_obj] []
       = Ok [Ev_NeedsBuild [''x.obj''] [''x.cxx'', ''x.h''], Ev_action ex_obj 0 1,
             Ev_JustBuilt [''x.obj''] [''x.cxx'', ''x.h'']]"
    by (simp add: SequentialMake_def always_stale_def all_return_def ex_obj_def)
  have ex2: "map_option (map_result trace) (ParallelMake 1 always_stale all_return [ex_obj] [0] [])
       = Some (Ok [Ev_thread_start, Ev_NeedsBuild [''x.obj''] [''x.cxx'', ''x.h''],
                   Ev_put ex_obj [''x.obj'' \<mapsto> 1],
                   Ev_JustBuilt [''x.obj''] [''x.cxx'', ''x.h''], Ev_put_stop])"
    by (simp add: ParallelMake_def ParallelMake_loop.simps loop_body_def scan_phase_def
        ParallelMake_init_def ParallelMake_finish_def ex_obj_def AllSourcesReady_def
        always_stale_def all_return_def donequeue_get_def run_task_def)
  from par seq ex1 ex2 show ?thesis by blast
qed
section \<open>Saving the cache\<close>

lemma no_save_count: "list_all (\<lambda>e. e \<noteq> Ev_SaveDependencyCache) tr \<Longrightarrow> save_count tr = 0"
  by (induction tr) (auto split: event.splits)

lemma save_count_append: "save_count (xs @ ys) = save_count xs + save_count ys"
  by (induction xs) (auto split: event.splits)

lemma ParallelMake_no_save:
  assumes "ParallelMake T nb exec tasks order [] = Some r"
  shows "list_all (\<lambda>e. e \<noteq> Ev_SaveDependencyCache) (trace (result_state r))"
proof -
  from assms obtain r0 where
    loop: "ParallelMake_loop T nb exec (ParallelMake_init T tasks []) order = Some r0"
    by (auto simp: ParallelMake_def split: option.splits)
  from loop_Some_run_iters [OF loop] obtain n where
    n: "run_iters T nb exec n (ParallelMake_init T tasks []) order = Finished r0" by blast
  have "list_all (\<lambda>e. e \<noteq> Ev_SaveDependencyCache)
      (trace (step_state (run_iters T nb exec n (ParallelMake_init T tasks []) order)))"
    by (rule run_iters_trace) simp_all
  with n have r0: "list_all (\<lambda>e. e \<noteq> Ev_SaveDependencyCache) (trace (result_state r0))"
    by simp
  from assms loop r0 show ?thesis
    by (cases r0)
       (auto simp: ParallelMake_def ParallelMake_finish_def Let_def list_all_iff
         split: list.splits)
qed

lemma RunDependencyQueue_no_save:
  assumes "RunDependencyQueue T nb exec tasks order [] = Some r"
  shows "save_count (result_state r) = 0"
proof (cases "T \<noteq> 0")
  case True
  with assms obtain r0 where r0: "ParallelMake T nb exec tasks order [] = Some r0"
    and r: "r = map_result trace r0"
    by (auto simp: RunDependencyQueue_def)
  from ParallelMake_no_save [OF r0] r show ?thesis
    by (cases r0) (simp_all add: no_save_count)
next
  case False
  with assms have r: "r = SequentialMake nb exec tasks []"
    by (simp add: RunDependencyQueue_def)
  have "list_all (\<lambda>e. e \<noteq> Ev_SaveDependencyCache)
      (result_state (SequentialMake_loop nb exec (length tasks) 0 tasks []))"
    by (rule SequentialMake_loop_trace [where A = UNIV]) simp_all
  with r show ?thesis by (simp add: SequentialMake_def no_save_count)
qed

text \<open>
  Whenever RunDependencyQueue ends, normally or with any exception (the exit on the
  failure marker, a KeyError, an exception of an action in the sequential fallback), the
  finally clause saves the dependency cache, and this is the only save of the
  invocation: it is the last event, after every JustBuilt recorded during the run. While
  the run is still waiting for a worker, nothing has been saved yet.
\<close>

lemma saved_once_when_run_ends:
  assumes "RunDependencyQueue T nb exec tasks order [] = Some r"
  shows "saved_at_end T nb exec tasks order r"
proof -
  from RunDependencyQueue_no_save [OF assms] have "save_count (result_state r) = 0" .
  with assms show ?thesis
    by (cases r)
       (simp_all add: saved_at_end_def main_def SaveDependencyCache_def save_count_append)
qed

text \<open>Two runs that end, one normally in the sequential fallback, one with the exit on
  the failure marker: each saves the cache once, last.\<close>

lemma saved_once_examples:
  "RunDependencyQueue 0 always_stale all_return [ex_a] [] []
     = Some (Ok [Ev_NeedsBuild [''a''] [], Ev_action ex_a 0 1, Ev_JustBuilt [''a''] []])
   \<and> saved_at_end 0 always_stale all_return [ex_a] []
        (Ok [Ev_NeedsBuild [''a''] [], Ev_action ex_a 0 1, Ev_JustBuilt [''a''] []])
   \<and> RunDependencyQueue 2 always_stale only_a_raises [ex_a, ex_c] [0] []
        = Some (Raised Exit_aborting (trace abort_state))
   \<and> saved_at_end 2 always_stale only_a_raises [ex_a, ex_c] [0]
        (Raised Exit_aborting (trace abort_state))"
proof -
  have seq: "RunDependencyQueue 0 always_stale all_return [ex_a] [] []
     = Some (Ok [Ev_NeedsBuild [''a''] [], Ev_action ex_a 0 1, Ev_JustBuilt [''a''] []])"
    by (simp add: RunDependencyQueue_def SequentialMake_def always_stale_def all_return_def
        ex_a_def)
  have "ParallelMake 2 always_stale only_a_raises [ex_a, ex_c] [0] []
     = Some (Raised Exit_aborting abort_state)"
    by (simp add: ParallelMake_def ParallelMake_loop.simps loop_body_def scan_phase_def
        ParallelMake_init_def ex_a_def ex_c_def AllSourcesReady_def always_stale_def
        only_a_raises_def donequeue_get_def run_task_def abort_state_def numeral_2_eq_2)
  then have par: "RunDependencyQueue 2 always_stale only_a_raises [ex_a, ex_c] [0] []
        = Some (Raised Exit_aborting (trace abort_state))"
    by (simp add: RunDependencyQueue_def)
  from seq par saved_once_when_run_ends [OF seq] saved_once_when_run_ends [OF par]
  show ?thesis by blast
qed



end
